theory Spec2Isabelle
  imports Main "HOL-Library.Sublist"
begin

section \<open>The file system seen by the scanner\<close>

text \<open>
  The program (\<^verbatim>\<open>src/index.ts\<close>, and its earlier version in
  \<^verbatim>\<open>src/unnamed/part_000\<close>) reads the file system through three calls:
  \<^verbatim>\<open>fs.readdir(p, {withFileTypes: true})\<close>, \<^verbatim>\<open>fs.readdir(p)\<close> and
  \<^verbatim>\<open>fs.stat(p)\<close>. A directory entry is reported as a directory only when it is a
  real directory (a symbolic link is not), so what the walk sees is a finite tree.

  A path is the list of its components; \<^verbatim>\<open>path.join(p, name)\<close> appends a
  component and \<^verbatim>\<open>path.dirname\<close> removes the last one (the start path is
  \<^verbatim>\<open>process.cwd()\<close>, which is absolute and normalised, and the names returned
  by \<^verbatim>\<open>readdir\<close> contain no separator).
\<close>

type_synonym path = "string list"

definition path_join :: "path \<Rightarrow> string \<Rightarrow> path" where
  "path_join p name = p @ [name]"

definition path_dirname :: "path \<Rightarrow> path" where
  "path_dirname p = butlast p"

text \<open>
  What lives below a name:
  \<^item> \<open>Dir files\<close>: a directory that \<^verbatim>\<open>readdir\<close> lists as \<open>files\<close>, in that order;
  \<^item> \<open>DirErr\<close>: a directory on which \<^verbatim>\<open>readdir\<close> throws (permission denied, deleted
    meanwhile);
  \<^item> \<open>File n\<close>: an entry that is not a directory and for which \<^verbatim>\<open>stat\<close> reports
    \<open>n\<close> bytes;
  \<^item> \<open>FileErr\<close>: an entry that is not a directory and on which \<^verbatim>\<open>stat\<close> throws (a
    dangling symbolic link).
  Sizes are natural numbers. The code holds them in JavaScript numbers (doubles) and adds
  them with \<^verbatim>\<open>+=\<close>; a double holds every natural number below \<open>2^53\<close>, and the
  sum of two of them is exact as long as it stays below \<open>2^53\<close>. Beyond that the
  code's sum is rounded and the natural-number sum of the model is not what it computes,
  so a statement about the value of a sum carries the bound \<open>2^53\<close>.
\<close>

datatype fsnode =
    File nat
  | FileErr
  | Dir "(string \<times> fsnode) list"
  | DirErr

text \<open>\<^verbatim>\<open>Dirent.isDirectory()\<close>\<close>

fun isDirectory :: "fsnode \<Rightarrow> bool" where
  "isDirectory (Dir files) = True"
| "isDirectory DirErr = True"
| "isDirectory (File n) = False"
| "isDirectory FileErr = False"

text \<open>\<^verbatim>\<open>fs.readdir\<close>: \<open>None\<close> when it throws (on a non-directory it throws as well).\<close>

fun readdir :: "fsnode \<Rightarrow> (string \<times> fsnode) list option" where
  "readdir (Dir files) = Some files"
| "readdir DirErr = None"
| "readdir (File n) = None"
| "readdir FileErr = None"

text \<open>
  \<^verbatim>\<open>(await fs.stat(p)).size\<close>: \<open>None\<close> when \<^verbatim>\<open>stat\<close> throws. The program calls it on
  entries that are not directories only; the size a directory's own inode reports is not
  part of the model, and the two directory cases are never reached.
\<close>

fun stat_size :: "fsnode \<Rightarrow> nat option" where
  "stat_size (File n) = Some n"
| "stat_size FileErr = None"
| "stat_size (Dir files) = None"
| "stat_size DirErr = None"

text \<open>
  The effects of the walk, in the order they happen: the file-system calls and the two
  \<^verbatim>\<open>console.error\<close> messages (\<^verbatim>\<open>Error reading directory ...\<close> and
  \<^verbatim>\<open>Error searching in ...\<close>).
\<close>

datatype event =
    Readdir path
  | Stat path
  | ErrorReading path
  | ErrorSearching path

text \<open>\<^verbatim>\<open>name.startsWith(".")\<close>\<close>

definition startsWith :: "string \<Rightarrow> string \<Rightarrow> bool" where
  "startsWith s p = prefix p s"

section \<open>The size accumulator\<close>

text \<open>
  \<^verbatim>\<open>getDirectorySize(dirPath)\<close>, the same text in both versions. The second argument is
  what the file system holds at \<open>dirPath\<close>. The whole loop is inside one
  \<^verbatim>\<open>try\<close>: when \<^verbatim>\<open>readdir\<close> throws the function returns 0, and when \<^verbatim>\<open>stat\<close>
  throws on a child the loop is left and the size added up so far is returned. The
  recursive call catches its own errors and never throws. The additions are those of
  natural numbers, which are the code's as long as the total stays below \<open>2^53\<close>:
  the running size only grows, so every size and partial sum is at most the total.
\<close>

fun getDirectorySize :: "path \<Rightarrow> fsnode \<Rightarrow> nat \<times> event list"
  and getDirectorySize_loop :: "path \<Rightarrow> (string \<times> fsnode) list \<Rightarrow> nat \<Rightarrow> nat \<times> event list"
where
  "getDirectorySize dirPath (Dir files) =
     (let (total, tr) = getDirectorySize_loop dirPath files 0
      in (total, Readdir dirPath # tr))"
| "getDirectorySize dirPath DirErr = (0, [Readdir dirPath, ErrorReading dirPath])"
| "getDirectorySize dirPath (File n) = (0, [Readdir dirPath, ErrorReading dirPath])"
| "getDirectorySize dirPath FileErr = (0, [Readdir dirPath, ErrorReading dirPath])"
| "getDirectorySize_loop dirPath [] size' = (size', [])"
| "getDirectorySize_loop dirPath ((name, file) # rest) size' =
     (let filePath = path_join dirPath name in
      if isDirectory file then
        (let (s, tr1) = getDirectorySize filePath file;
             (total, tr2) = getDirectorySize_loop dirPath rest (size' + s)
         in (total, tr1 @ tr2))
      else
        (case stat_size file of
           Some s \<Rightarrow>
             (let (total, tr2) = getDirectorySize_loop dirPath rest (size' + s)
              in (total, Stat filePath # tr2))
         | None \<Rightarrow> (size', [Stat filePath, ErrorReading dirPath])))"

section \<open>The scanner, later version\<close>

datatype project_type = Node | Rust

text \<open>
  \<^verbatim>\<open>interface ProjectInfo\<close>. \<open>nice_path\<close> is
  \<^verbatim>\<open>path.dirname(fullPath).replace(getHomeDirectory(), "~")\<close>, a display string that
  depends on the path and on the environment only; the function from the one to the
  other is the parameter \<open>nice\<close> of the scanner.
\<close>

record ProjectInfo =
  path :: path
  nice_path :: string
  size' :: nat
  type :: project_type

text \<open>
  \<^verbatim>\<open>isRustProject(dirPath)\<close>; the second argument is what the file system holds at
  \<open>dirPath\<close>.
\<close>

definition isRustProject :: "path \<Rightarrow> fsnode \<Rightarrow> bool \<times> event list" where
  "isRustProject dirPath dir =
     (case readdir dir of
        Some files \<Rightarrow> (''Cargo.toml'' \<in> set (map fst files), [Readdir dirPath])
      | None \<Rightarrow> (False, [Readdir dirPath]))"

text \<open>
  \<^verbatim>\<open>findBuildDirectories(startPath, results)\<close>. \<open>dir\<close> is what the file system holds
  at \<open>startPath\<close>; the loop keeps it because \<^verbatim>\<open>isRustProject\<close> reads
  \<^verbatim>\<open>path.dirname(fullPath)\<close>, which is \<open>startPath\<close>, again. \<^verbatim>\<open>results.push\<close>
  appends to the list, which the recursive call shares. Nothing called inside the loop
  throws, so the \<^verbatim>\<open>catch\<close> is reached from \<^verbatim>\<open>readdir\<close> only.
\<close>

fun findBuildDirectories ::
    "(path \<Rightarrow> string) \<Rightarrow> path \<Rightarrow> fsnode \<Rightarrow> ProjectInfo list \<Rightarrow> ProjectInfo list \<times> event list"
  and findBuildDirectories_loop ::
    "(path \<Rightarrow> string) \<Rightarrow> path \<Rightarrow> fsnode \<Rightarrow> (string \<times> fsnode) list \<Rightarrow> ProjectInfo list
       \<Rightarrow> ProjectInfo list \<times> event list"
where
  "findBuildDirectories nice startPath (Dir files) results =
     (let (res, tr) = findBuildDirectories_loop nice startPath (Dir files) files results
      in (res, Readdir startPath # tr))"
| "findBuildDirectories nice startPath DirErr results =
     (results, [Readdir startPath, ErrorSearching startPath])"
| "findBuildDirectories nice startPath (File n) results =
     (results, [Readdir startPath, ErrorSearching startPath])"
| "findBuildDirectories nice startPath FileErr results =
     (results, [Readdir startPath, ErrorSearching startPath])"
| "findBuildDirectories_loop nice startPath dir [] results = (results, [])"
| "findBuildDirectories_loop nice startPath dir ((name, file) # rest) results =
     (let fullPath = path_join startPath name in
      if isDirectory file then
        if name = ''node_modules'' then
          (let (s, tr1) = getDirectorySize fullPath file;
               results1 = results @
                 [\<lparr>path = path_dirname fullPath, nice_path = nice (path_dirname fullPath),
                   size' = s, type = Node\<rparr>];
               (res, tr2) = findBuildDirectories_loop nice startPath dir rest results1
           in (res, tr1 @ tr2))
        else
          (let (rust, tr0) =
                 (if name = ''target'' then isRustProject (path_dirname fullPath) dir
                  else (False, []))
           in
           if rust then
             (let (s, tr1) = getDirectorySize fullPath file;
                  results1 = results @
                    [\<lparr>path = path_dirname fullPath, nice_path = nice (path_dirname fullPath),
                      size' = s, type = Rust\<rparr>];
                  (res, tr2) = findBuildDirectories_loop nice startPath dir rest results1
              in (res, tr0 @ tr1 @ tr2))
           else if \<not> startsWith name ''.'' \<and> name \<noteq> ''node_modules'' \<and> name \<noteq> ''target'' then
             (let (results1, tr1) = findBuildDirectories nice fullPath file results;
                  (res, tr2) = findBuildDirectories_loop nice startPath dir rest results1
              in (res, tr0 @ tr1 @ tr2))
           else
             (let (res, tr2) = findBuildDirectories_loop nice startPath dir rest results
              in (res, tr0 @ tr2)))
      else findBuildDirectories_loop nice startPath dir rest results)"

section \<open>The scanner, earlier version\<close>

text \<open>\<^verbatim>\<open>interface ProjectInfo\<close> of the earlier version: a path and a size.\<close>

record NodeProjectInfo =
  np_path :: path
  np_size :: nat

text \<open>\<^verbatim>\<open>findNodeModules(startPath, results)\<close> of \<^verbatim>\<open>src/unnamed/part_000\<close>.\<close>

fun findNodeModules ::
    "path \<Rightarrow> fsnode \<Rightarrow> NodeProjectInfo list \<Rightarrow> NodeProjectInfo list \<times> event list"
  and findNodeModules_loop ::
    "path \<Rightarrow> (string \<times> fsnode) list \<Rightarrow> NodeProjectInfo list
       \<Rightarrow> NodeProjectInfo list \<times> event list"
where
  "findNodeModules startPath (Dir files) results =
     (let (res, tr) = findNodeModules_loop startPath files results
      in (res, Readdir startPath # tr))"
| "findNodeModules startPath DirErr results =
     (results, [Readdir startPath, ErrorSearching startPath])"
| "findNodeModules startPath (File n) results =
     (results, [Readdir startPath, ErrorSearching startPath])"
| "findNodeModules startPath FileErr results =
     (results, [Readdir startPath, ErrorSearching startPath])"
| "findNodeModules_loop startPath [] results = (results, [])"
| "findNodeModules_loop startPath ((name, file) # rest) results =
     (let fullPath = path_join startPath name in
      if isDirectory file then
        if name = ''node_modules'' then
          (let (s, tr1) = getDirectorySize fullPath file;
               results1 = results @ [\<lparr>np_path = path_dirname fullPath, np_size = s\<rparr>];
               (res, tr2) = findNodeModules_loop startPath rest results1
           in (res, tr1 @ tr2))
        else if \<not> startsWith name ''.'' \<and> name \<noteq> ''node_modules'' then
          (let (results1, tr1) = findNodeModules fullPath file results;
               (res, tr2) = findNodeModules_loop startPath rest results1
           in (res, tr1 @ tr2))
        else findNodeModules_loop startPath rest results
      else findNodeModules_loop startPath rest results)"

section \<open>Notions used in the statements\<close>

text \<open>
  What one immediate child adds to the size of its directory, in the words of the
  specification: the computed size of a child directory, the byte length the metadata
  query reports for any other child (nothing when the query reports none).
\<close>

fun child_size :: "path \<Rightarrow> string \<times> fsnode \<Rightarrow> nat" where
  "child_size dirPath (name, file) =
     (if isDirectory file then fst (getDirectorySize (path_join dirPath name) file)
      else (case stat_size file of Some s \<Rightarrow> s | None \<Rightarrow> 0))"

definition children_sum :: "path \<Rightarrow> (string \<times> fsnode) list \<Rightarrow> nat" where
  "children_sum dirPath files = sum_list (map (child_size dirPath) files)"

text \<open>A child whose size can be had: a directory, or an entry whose metadata query succeeds.\<close>

fun stat_ok :: "string \<times> fsnode \<Rightarrow> bool" where
  "stat_ok (name, file) = (isDirectory file \<or> stat_size file \<noteq> None)"

text \<open>
  The names the scanner walks into: the condition of the last branch of the loop in
  \<^verbatim>\<open>findBuildDirectories\<close>.
\<close>

definition descends :: "string \<Rightarrow> bool" where
  "descends name = (\<not> startsWith name ''.'' \<and> name \<noteq> ''node_modules'' \<and> name \<noteq> ''target'')"

text \<open>The directory has an entry named \<^verbatim>\<open>Cargo.toml\<close>.\<close>

definition has_cargo_toml :: "fsnode \<Rightarrow> bool" where
  "has_cargo_toml dir =
     (case dir of Dir files \<Rightarrow> ''Cargo.toml'' \<in> set (map fst files) | _ \<Rightarrow> False)"

text \<open>
  The matches a scan adds to the list it was given, those one run of the loop adds, and
  those one entry of the listing adds.
\<close>

definition found :: "(path \<Rightarrow> string) \<Rightarrow> path \<Rightarrow> fsnode \<Rightarrow> ProjectInfo list" where
  "found nice p t = fst (findBuildDirectories nice p t [])"

definition found_loop ::
  "(path \<Rightarrow> string) \<Rightarrow> path \<Rightarrow> fsnode \<Rightarrow> (string \<times> fsnode) list \<Rightarrow> ProjectInfo list" where
  "found_loop nice p dir files = fst (findBuildDirectories_loop nice p dir files [])"

definition match :: "(path \<Rightarrow> string) \<Rightarrow> path \<Rightarrow> nat \<Rightarrow> project_type \<Rightarrow> ProjectInfo" where
  "match nice p s ty = \<lparr>path = p, nice_path = nice p, size' = s, type = ty\<rparr>"

definition found_entry ::
  "(path \<Rightarrow> string) \<Rightarrow> path \<Rightarrow> fsnode \<Rightarrow> string \<times> fsnode \<Rightarrow> ProjectInfo list" where
  "found_entry nice p dir e =
     (if isDirectory (snd e) then
        if fst e = ''node_modules'' then
          [match nice p (fst (getDirectorySize (path_join p (fst e)) (snd e))) Node]
        else if fst e = ''target'' \<and> fst (isRustProject p dir) then
          [match nice p (fst (getDirectorySize (path_join p (fst e)) (snd e))) Rust]
        else if descends (fst e) then found nice (path_join p (fst e)) (snd e)
        else []
      else [])"

text \<open>
  What identifies a match: the project path and the project type. Together they name the
  artifact directory, which is what \<^verbatim>\<open>deleteBuildDirectory(project.path, project.type)\<close>
  removes.
\<close>

definition key :: "ProjectInfo \<Rightarrow> path \<times> project_type" where
  "key r = (path r, type r)"

text \<open>A tree of the file system: no directory lists a name twice.\<close>

fun unique_names :: "fsnode \<Rightarrow> bool"
  and unique_names_list :: "(string \<times> fsnode) list \<Rightarrow> bool"
where
  "unique_names (Dir files) = (distinct (map fst files) \<and> unique_names_list files)"
| "unique_names DirErr = True"
| "unique_names (File n) = True"
| "unique_names FileErr = True"
| "unique_names_list [] = True"
| "unique_names_list ((name, file) # rest) = (unique_names file \<and> unique_names_list rest)"

text \<open>
  A tree with no artifact directory anywhere in it: no directory named
  \<^verbatim>\<open>node_modules\<close>, and no directory named \<^verbatim>\<open>target\<close> whose parent has a
  \<^verbatim>\<open>Cargo.toml\<close>.
\<close>

fun no_artifact :: "fsnode \<Rightarrow> bool"
  and no_artifact_list :: "fsnode \<Rightarrow> (string \<times> fsnode) list \<Rightarrow> bool"
where
  "no_artifact (Dir files) = no_artifact_list (Dir files) files"
| "no_artifact DirErr = True"
| "no_artifact (File n) = True"
| "no_artifact FileErr = True"
| "no_artifact_list dir [] = True"
| "no_artifact_list dir ((name, file) # rest) =
     (\<not> (isDirectory file \<and> name = ''node_modules'')
      \<and> \<not> (isDirectory file \<and> name = ''target'' \<and> has_cargo_toml dir)
      \<and> no_artifact file \<and> no_artifact_list dir rest)"

text \<open>
  A display function for the closed examples: the path as it is printed when the home
  directory does not occur in it.
\<close>

definition show_path :: "path \<Rightarrow> string" where
  "show_path p = concat (map (\<lambda>name. CHR ''/'' # name) p)"

text \<open>The path an effect is about.\<close>

fun event_path :: "event \<Rightarrow> path" where
  "event_path (Readdir p) = p"
| "event_path (Stat p) = p"
| "event_path (ErrorReading p) = p"
| "event_path (ErrorSearching p) = p"

text \<open>The two artifact directory names.\<close>

definition artifact_name :: "string \<Rightarrow> bool" where
  "artifact_name name = (name = ''node_modules'' \<or> name = ''target'')"

text \<open>
  The paths, relative to the start path, that the scan can touch: those whose components
  are all names the scanner walks into, and those whose first component of another kind
  is an artifact name (the size accumulator works below it).
\<close>

definition walk_reaches :: "path \<Rightarrow> bool" where
  "walk_reaches q = (list_all descends q
     \<or> list_ex artifact_name (take 1 (dropWhile descends q)))"

text \<open>
  The effects of a scan, of one run of the loop, and of one entry of the listing.
\<close>

definition trace :: "(path \<Rightarrow> string) \<Rightarrow> path \<Rightarrow> fsnode \<Rightarrow> event list" where
  "trace nice p t = snd (findBuildDirectories nice p t [])"

definition trace_loop ::
  "(path \<Rightarrow> string) \<Rightarrow> path \<Rightarrow> fsnode \<Rightarrow> (string \<times> fsnode) list \<Rightarrow> event list" where
  "trace_loop nice p dir files = snd (findBuildDirectories_loop nice p dir files [])"

definition trace_entry ::
  "(path \<Rightarrow> string) \<Rightarrow> path \<Rightarrow> fsnode \<Rightarrow> string \<times> fsnode \<Rightarrow> event list" where
  "trace_entry nice p dir e =
     (if isDirectory (snd e) then
        if fst e = ''node_modules'' then snd (getDirectorySize (path_join p (fst e)) (snd e))
        else if fst e = ''target'' then
          Readdir p #
            (if has_cargo_toml dir then snd (getDirectorySize (path_join p (fst e)) (snd e))
             else [])
        else if descends (fst e) then trace nice (path_join p (fst e)) (snd e)
        else []
      else [])"

text \<open>The tree with every directory that cannot be listed replaced by an empty one.\<close>

fun as_empty :: "fsnode \<Rightarrow> fsnode"
  and as_empty_list :: "(string \<times> fsnode) list \<Rightarrow> (string \<times> fsnode) list"
where
  "as_empty (Dir files) = Dir (as_empty_list files)"
| "as_empty DirErr = Dir []"
| "as_empty (File n) = File n"
| "as_empty FileErr = FileErr"
| "as_empty_list [] = []"
| "as_empty_list ((name, file) # rest) = (name, as_empty file) # as_empty_list rest"

text \<open>A tree with no directory named \<^verbatim>\<open>target\<close> anywhere in it.\<close>

fun no_target_dir :: "fsnode \<Rightarrow> bool"
  and no_target_dir_list :: "(string \<times> fsnode) list \<Rightarrow> bool"
where
  "no_target_dir (Dir files) = no_target_dir_list files"
| "no_target_dir DirErr = True"
| "no_target_dir (File n) = True"
| "no_target_dir FileErr = True"
| "no_target_dir_list [] = True"
| "no_target_dir_list ((name, file) # rest) =
     (\<not> (isDirectory file \<and> name = ''target'') \<and> no_target_dir file \<and> no_target_dir_list rest)"

text \<open>A match of the later version projected to the fields of the earlier one.\<close>

definition path_and_size :: "ProjectInfo \<Rightarrow> NodeProjectInfo" where
  "path_and_size r = \<lparr>np_path = path r, np_size = size' r\<rparr>"

text \<open>A match as seen from the start path \<open>p\<close>: its path below \<open>p\<close>, size and type.\<close>

definition relative :: "path \<Rightarrow> ProjectInfo \<Rightarrow> path \<times> nat \<times> project_type" where
  "relative p r = (drop (length p) (path r), size' r, type r)"

text \<open>
  The nodes of a tree at a path given relative to its root (one at most when no
  directory lists a name twice).
\<close>

fun nodes_at :: "fsnode \<Rightarrow> path \<Rightarrow> fsnode list"
  and nodes_at_list :: "(string \<times> fsnode) list \<Rightarrow> string \<Rightarrow> path \<Rightarrow> fsnode list"
where
  "nodes_at t [] = [t]"
| "nodes_at (Dir files) (name # q) = nodes_at_list files name q"
| "nodes_at DirErr (name # q) = []"
| "nodes_at (File n) (name # q) = []"
| "nodes_at FileErr (name # q) = []"
| "nodes_at_list [] name q = []"
| "nodes_at_list ((n, file) # rest) name q =
     (if n = name then nodes_at file q else []) @ nodes_at_list rest name q"

section \<open>Paths\<close>

lemma path_dirname_join [simp]: "path_dirname (path_join p name) = p"
  by (simp add: path_dirname_def path_join_def)

section \<open>The size accumulator adds up the children\<close>

lemma getDirectorySize_loop_sum:
  "fst (getDirectorySize_loop dirPath files acc) =
     acc + children_sum dirPath (takeWhile stat_ok files)"
proof (induction files arbitrary: acc)
  case Nil
  show ?case by (simp add: children_sum_def)
next
  case (Cons e files)
  obtain name f where e: "e = (name, f)" by (cases e)
  show ?case
  proof (cases "isDirectory f")
    case True
    then show ?thesis
      using Cons.IH [of "acc + fst (getDirectorySize (path_join dirPath name) f)"]
      by (simp add: e children_sum_def split_def Let_def)
  next
    case False
    then show ?thesis
      using Cons.IH
      by (cases "stat_size f") (simp_all add: e children_sum_def split_def Let_def)
  qed
qed

lemma takeWhile_list_all: "list_all P xs \<Longrightarrow> takeWhile P xs = xs"
  by (induction xs) auto

lemma getDirectorySize_loop_ge: "acc \<le> fst (getDirectorySize_loop dirPath files acc)"
  by (simp add: getDirectorySize_loop_sum)

lemma children_sum_takeWhile_le:
  "children_sum dirPath (takeWhile P files) \<le> children_sum dirPath files"
  by (induction files) (simp_all add: children_sum_def)

lemma child_size_le_children_sum:
  "x \<in> set files \<Longrightarrow> child_size dirPath x \<le> children_sum dirPath files"
  unfolding children_sum_def by (induction files) auto

text \<open>
  C4 (as amended). As long as the sum stays below \<open>2^53\<close> (and with it every size that
  goes into it), \<open>getDirectorySize\<close> of a directory is the sum, over its immediate
  children up to the first one whose metadata query fails, of the computed size of each
  child directory and the reported byte length of each other child. When the query
  succeeds for every child that is not a directory this is the sum over every immediate
  child; and a directory holding files of 100 and 250 bytes and a subdirectory with one
  file of 50 bytes has size 400.
\<close>

theorem C4_getDirectorySize_children_sum:
  "(children_sum dirPath (takeWhile stat_ok files) < 2 ^ 53 \<longrightarrow>
      fst (getDirectorySize dirPath (Dir files)) = children_sum dirPath (takeWhile stat_ok files)
      \<and> list_all (\<lambda>x. child_size dirPath x < 2 ^ 53) (takeWhile stat_ok files))
   \<and> (list_all stat_ok files \<and> children_sum dirPath files < 2 ^ 53 \<longrightarrow>
        fst (getDirectorySize dirPath (Dir files)) = children_sum dirPath files)
   \<and> fst (getDirectorySize dirPath
        (Dir [(a, File 100), (b, File 250), (sub, Dir [(c, File 50)])])) = 400"
proof (intro conjI impI)
  show g: "fst (getDirectorySize dirPath (Dir files)) =
      children_sum dirPath (takeWhile stat_ok files)"
    using getDirectorySize_loop_sum [of dirPath files 0] by (simp add: split_def Let_def)
  show "fst (getDirectorySize dirPath (Dir files)) = children_sum dirPath files"
    if "list_all stat_ok files \<and> children_sum dirPath files < 2 ^ 53"
    using g that by (simp add: takeWhile_list_all)
  show "list_all (\<lambda>x. child_size dirPath x < 2 ^ 53) (takeWhile stat_ok files)"
    if "children_sum dirPath (takeWhile stat_ok files) < 2 ^ 53"
    using that child_size_le_children_sum [of _ "takeWhile stat_ok files" dirPath]
    by (auto simp: list_all_iff intro: le_less_trans)
  show "fst (getDirectorySize dirPath
        (Dir [(a, File 100), (b, File 250), (sub, Dir [(c, File 50)])])) = 400"
    by (simp add: split_def Let_def)
qed

theorem C4_getDirectorySize_children_sum_witness:
  "list_all stat_ok [(''a.txt'', File 100), (''b.txt'', File 250), (''sub'', Dir [(''c.txt'', File 50)])]
   \<and> children_sum [''d'']
        [(''a.txt'', File 100), (''b.txt'', File 250), (''sub'', Dir [(''c.txt'', File 50)])] < 2 ^ 53
   \<and> fst (getDirectorySize [''d'']
        (Dir [(''a.txt'', File 100), (''b.txt'', File 250), (''sub'', Dir [(''c.txt'', File 50)])]))
     = children_sum [''d'']
        [(''a.txt'', File 100), (''b.txt'', File 250), (''sub'', Dir [(''c.txt'', File 50)])]
   \<and> children_sum [''d'']
        [(''a.txt'', File 100), (''b.txt'', File 250), (''sub'', Dir [(''c.txt'', File 50)])] = 400"
  using C4_getDirectorySize_children_sum
    [of "[''d'']" "[(''a.txt'', File 100), (''b.txt'', File 250), (''sub'', Dir [(''c.txt'', File 50)])]"]
  by (simp add: children_sum_def split_def Let_def)

text \<open>
  The claim C4 as it is written fails where the metadata query throws on a child: the
  loop is left there, and the 5 bytes of the file listed after it are not counted. The
  result, 0, is below what that file alone adds, so it is not the sum over every child
  whatever the failing child is taken to add.
\<close>

theorem C4_stat_error_counterexample:
  "fst (getDirectorySize [''d''] (Dir [(''a'', FileErr), (''b'', File 5)]))
     \<noteq> children_sum [''d''] [(''a'', FileErr), (''b'', File 5)]
   \<and> fst (getDirectorySize [''d''] (Dir [(''a'', FileErr), (''b'', File 5)]))
       < child_size [''d''] (''b'', File 5)"
  by (simp add: children_sum_def split_def Let_def)

section \<open>What a scan adds to its list\<close>

lemma fbd_loop_append:
  "findBuildDirectories_loop nice p dir (xs @ ys) rs =
     (let (r1, t1) = findBuildDirectories_loop nice p dir xs rs;
          (r2, t2) = findBuildDirectories_loop nice p dir ys r1
      in (r2, t1 @ t2))"
proof (induction xs arbitrary: rs)
  case Nil
  show ?case by (simp add: split_def)
next
  case (Cons e xs)
  obtain name c where e: "e = (name, c)" by (cases e)
  show ?case
    by (simp add: e Cons.IH split_def Let_def)
qed

lemma fbd_loop_results_append_aux:
  assumes "\<forall>c \<in> snd ` set files. \<forall>q rs rs'.
      fst (findBuildDirectories nice q c (rs @ rs')) = rs @ fst (findBuildDirectories nice q c rs')"
  shows "fst (findBuildDirectories_loop nice p dir files (rs @ rs')) =
      rs @ fst (findBuildDirectories_loop nice p dir files rs')"
  using assms
proof (induction files arbitrary: rs')
  case Nil
  show ?case by simp
next
  case (Cons e files)
  obtain name c where e: "e = (name, c)" by (cases e)
  have IH: "\<And>rs'. fst (findBuildDirectories_loop nice p dir files (rs @ rs')) =
      rs @ fst (findBuildDirectories_loop nice p dir files rs')"
    using Cons by simp
  have C: "\<And>q rs'. fst (findBuildDirectories nice q c (rs @ rs')) =
      rs @ fst (findBuildDirectories nice q c rs')"
    using Cons.prems e by simp
  show ?case
    using IH [of "rs' @ [x]" for x]
    by (simp add: e split_def Let_def C IH)
qed

lemma fbd_results_append:
  "fst (findBuildDirectories nice p t (rs @ rs')) = rs @ fst (findBuildDirectories nice p t rs')"
proof (induction t arbitrary: p rs rs')
  case (Dir files)
  have "fst (findBuildDirectories_loop nice p (Dir files) files (rs @ rs')) =
      rs @ fst (findBuildDirectories_loop nice p (Dir files) files rs')"
    by (rule fbd_loop_results_append_aux) (use Dir in force)
  then show ?case by (simp add: split_def Let_def)
qed simp_all

lemma fbd_results: "fst (findBuildDirectories nice p t rs) = rs @ found nice p t"
  using fbd_results_append [of nice p t rs "[]"] by (simp add: found_def)

lemma fbd_loop_results_append:
  "fst (findBuildDirectories_loop nice p dir files (rs @ rs')) =
      rs @ fst (findBuildDirectories_loop nice p dir files rs')"
  by (rule fbd_loop_results_append_aux) (simp add: fbd_results_append)

lemma fbd_loop_results:
  "fst (findBuildDirectories_loop nice p dir files rs) = rs @ found_loop nice p dir files"
  using fbd_loop_results_append [of nice p dir files rs "[]"] by (simp add: found_loop_def)

lemma found_Dir: "found nice p (Dir files) = found_loop nice p (Dir files) files"
  by (simp add: found_def found_loop_def split_def Let_def)

lemma found_not_Dir [simp]:
  "found nice p DirErr = []" "found nice p (File n) = []" "found nice p FileErr = []"
  by (simp_all add: found_def)

lemma found_loop_Nil [simp]: "found_loop nice p dir [] = []"
  by (simp add: found_loop_def)

lemma found_loop_Cons:
  "found_loop nice p dir (e # rest) = found_entry nice p dir e @ found_loop nice p dir rest"
proof -
  obtain name c where e: "e = (name, c)" by (cases e)
  have "found_loop nice p dir (e # rest) =
      fst (findBuildDirectories_loop nice p dir (e # rest) [])"
    by (simp add: found_loop_def)
  also have "\<dots> = found_entry nice p dir e @ found_loop nice p dir rest"
    by (simp add: e found_entry_def descends_def match_def fbd_loop_results fbd_results
        split_def Let_def)
  finally show ?thesis .
qed

lemma found_loop_concat:
  "found_loop nice p dir files = concat (map (found_entry nice p dir) files)"
  by (induction files) (simp_all add: found_loop_Cons)

lemma isRustProject_fst: "fst (isRustProject p dir) = has_cargo_toml dir"
  by (cases dir) (simp_all add: isRustProject_def has_cargo_toml_def)

lemma isRustProject_snd: "snd (isRustProject p dir) = [Readdir p]"
  by (cases dir) (simp_all add: isRustProject_def)

section \<open>Where the matches lie\<close>

lemma found_paths:
  "r \<in> set (found nice p t) \<Longrightarrow> \<exists>q. path r = p @ q \<and> list_all descends q"
proof (induction t arbitrary: p r)
  case (Dir files)
  from Dir.prems obtain e where e: "e \<in> set files" and r: "r \<in> set (found_entry nice p (Dir files) e)"
    by (auto simp: found_Dir found_loop_concat)
  obtain name c where nc: "e = (name, c)" by (cases e)
  show ?case
  proof (cases "isDirectory c \<and> name \<noteq> ''node_modules''
      \<and> \<not> (name = ''target'' \<and> fst (isRustProject p (Dir files))) \<and> descends name")
    case True
    with r nc have "r \<in> set (found nice (path_join p name) c)"
      by (simp add: found_entry_def)
    with Dir.IH [of e c] e nc obtain q where "path r = path_join p name @ q" "list_all descends q"
      by auto
    with True have "path r = p @ (name # q) \<and> list_all descends (name # q)"
      by (simp add: path_join_def)
    then show ?thesis by blast
  next
    case False
    with r nc have "path r = p"
      by (auto simp: found_entry_def match_def split: if_splits)
    then show ?thesis by (intro exI [of _ "[]"]) simp
  qed
qed simp_all

lemma no_artifact_found: "no_artifact t \<Longrightarrow> found nice p t = []"
proof (induction t arbitrary: p)
  case (Dir files)
  have "no_artifact_list dir fs \<Longrightarrow> set fs \<subseteq> set files \<Longrightarrow>
      has_cargo_toml dir = has_cargo_toml (Dir files) \<Longrightarrow>
      found_loop nice p (Dir files) fs = []" for fs dir
  proof (induction fs)
    case Nil
    show ?case by simp
  next
    case (Cons e fs)
    obtain name c where nc: "e = (name, c)" by (cases e)
    from Cons.prems nc have c: "no_artifact c" "(name, c) \<in> set files" by auto
    have "found nice (path_join p name) c = []"
      using Dir.IH [of "(name, c)" c] c by simp
    moreover have "found_loop nice p (Dir files) fs = []"
      using Cons by (simp add: nc)
    ultimately show ?case
      using Cons.prems
      by (auto simp: nc found_loop_Cons found_entry_def isRustProject_fst)
  qed
  from this [of "Dir files" files] Dir.prems show ?case
    by (simp add: found_Dir)
qed simp_all

section \<open>A match is recorded once\<close>

lemma found_entry_keys:
  assumes "r \<in> set (found_entry nice p dir (name, c))"
  shows "(key r = (p, Node) \<and> name = ''node_modules'')
       \<or> (key r = (p, Rust) \<and> name = ''target'')
       \<or> (descends name \<and> prefix (p @ [name]) (path r))"
proof (cases "isDirectory c \<and> name \<noteq> ''node_modules''
      \<and> \<not> (name = ''target'' \<and> fst (isRustProject p dir)) \<and> descends name")
  case True
  with assms have "r \<in> set (found nice (path_join p name) c)"
    by (simp add: found_entry_def)
  then obtain q where "path r = path_join p name @ q"
    using found_paths by blast
  with True show ?thesis by (simp add: path_join_def)
next
  case False
  with assms show ?thesis
    by (auto simp: found_entry_def match_def key_def split: if_splits)
qed

lemma prefix_snoc_same: "prefix (p @ [a]) xs \<Longrightarrow> prefix (p @ [b]) xs \<Longrightarrow> a = b"
  by (auto simp: prefix_def)

lemma prefix_snoc_self: "\<not> prefix (p @ [a]) p"
  by (auto simp: prefix_def)

lemma found_entry_keys_disjoint:
  assumes "name \<noteq> name'"
    and "r \<in> set (found_entry nice p dir (name, c))"
    and "r' \<in> set (found_entry nice p dir (name', c'))"
  shows "key r \<noteq> key r'"
proof
  assume eq: "key r = key r'"
  then have p: "path r = path r'" by (simp add: key_def)
  from found_entry_keys [OF assms(2)] found_entry_keys [OF assms(3)] assms(1) eq p
  show False
    by (auto simp: key_def dest: prefix_snoc_same simp: prefix_snoc_self)
qed

lemma found_entry_distinct:
  assumes "isDirectory c \<Longrightarrow> descends name \<Longrightarrow>
      distinct (map key (found nice (path_join p name) c))"
  shows "distinct (map key (found_entry nice p dir (name, c)))"
  using assms by (simp add: found_entry_def)

lemma found_distinct: "unique_names t \<Longrightarrow> distinct (map key (found nice p t))"
proof (induction t arbitrary: p)
  case (Dir files)
  have "distinct (map fst fs) \<Longrightarrow> unique_names_list fs \<Longrightarrow> set fs \<subseteq> set files \<Longrightarrow>
      distinct (map key (found_loop nice p dir fs))" for fs dir
  proof (induction fs)
    case Nil
    show ?case by simp
  next
    case (Cons e fs)
    obtain name c where nc: "e = (name, c)" by (cases e)
    from Cons.prems nc have c: "unique_names c" "(name, c) \<in> set files" by auto
    have 1: "distinct (map key (found_entry nice p dir (name, c)))"
      by (rule found_entry_distinct) (use Dir.IH [of "(name, c)" c] c in simp)
    have 2: "distinct (map key (found_loop nice p dir fs))"
      using Cons by (simp add: nc)
    have 3: "key r \<noteq> key r'"
      if "r \<in> set (found_entry nice p dir (name, c))" "r' \<in> set (found_loop nice p dir fs)"
      for r r'
    proof -
      from that(2) obtain e' where e': "e' \<in> set fs" "r' \<in> set (found_entry nice p dir e')"
        by (auto simp: found_loop_concat)
      obtain name' c' where nc': "e' = (name', c')" by (cases e')
      from Cons.prems(1) e'(1) nc nc' have "name \<noteq> name'" by force
      then show ?thesis
        using found_entry_keys_disjoint that(1) e'(2) nc' by blast
    qed
    have "key ` set (found_entry nice p dir (name, c)) \<inter> key ` set (found_loop nice p dir fs) = {}"
      using 3 by fastforce
    with 1 2 show ?case
      by (simp add: nc found_loop_Cons)
  qed
  from this [of files "Dir files"] Dir.prems show ?case
    by (simp add: found_Dir)
qed simp_all

section \<open>The claims about the matches\<close>

lemmas run_defs = split_def Let_def isRustProject_def startsWith_def path_join_def path_dirname_def

text \<open>
  C1 (as amended). On a tree of the file system (no directory lists a name twice), no two
  entries of the result of \<open>findBuildDirectories\<close> share both the project path and the
  project type: each artifact directory is recorded at most once. (The project path alone
  can occur twice, once for each type.)
\<close>

theorem C1_match_recorded_once:
  "unique_names t \<Longrightarrow> distinct (map key (fst (findBuildDirectories nice startPath t [])))"
  using found_distinct [of t nice startPath] by (simp add: found_def)

theorem C1_match_recorded_once_witness:
  "unique_names (Dir [(''app'', Dir [(''Cargo.toml'', File 1), (''node_modules'', Dir []),
                           (''target'', Dir [])])])
   \<and> distinct (map key (fst (findBuildDirectories show_path [''root'']
      (Dir [(''app'', Dir [(''Cargo.toml'', File 1), (''node_modules'', Dir []),
                           (''target'', Dir [])])]) [])))
   \<and> map key (fst (findBuildDirectories show_path [''root'']
      (Dir [(''app'', Dir [(''Cargo.toml'', File 1), (''node_modules'', Dir []),
                           (''target'', Dir [])])]) []))
     = [([''root'', ''app''], Node), ([''root'', ''app''], Rust)]"
  using C1_match_recorded_once [of "Dir [(''app'', Dir [(''Cargo.toml'', File 1),
      (''node_modules'', Dir []), (''target'', Dir [])])]" show_path "[''root'']"]
  by (simp add: run_defs key_def)

text \<open>
  The claim C1 as it is written fails: a project directory that holds both a
  \<^verbatim>\<open>node_modules\<close> directory and a \<^verbatim>\<open>target\<close> directory beside a
  \<^verbatim>\<open>Cargo.toml\<close> is reported twice, with the same project path.
\<close>

theorem C1_projectPath_shared_counterexample:
  "\<not> distinct (map path (fst (findBuildDirectories show_path [''root'']
      (Dir [(''app'', Dir [(''Cargo.toml'', File 1), (''node_modules'', Dir []),
                           (''target'', Dir [])])]) [])))"
  by (simp add: run_defs)

text \<open>
  C5. With \<^verbatim>\<open>root/projA/node_modules/pkg/index.js\<close> of 10 bytes, and
  \<^verbatim>\<open>root/projB/target\<close> holding one file of 20 bytes beside the file
  \<^verbatim>\<open>root/projB/Cargo.toml\<close>, the scan of \<open>root\<close> returns exactly two matches:
  \<open>root/projA\<close> with size 10 and type \<open>Node\<close>, then \<open>root/projB\<close> with size 20
  and type \<open>Rust\<close>, in whichever order \<open>projB\<close> lists its two entries (and the
  same two in the other order when \<open>root\<close> lists \<open>projB\<close> first).
\<close>

theorem C5_end_to_end:
  "fst (findBuildDirectories nice root
      (Dir [(''projA'', Dir [(''node_modules'', Dir [(''pkg'', Dir [(''index.js'', File 10)])])]),
            (''projB'', Dir [(''Cargo.toml'', File n), (''target'', Dir [(f, File 20)])])]) [])
   = [\<lparr>path = root @ [''projA''], nice_path = nice (root @ [''projA'']), size' = 10, type = Node\<rparr>,
      \<lparr>path = root @ [''projB''], nice_path = nice (root @ [''projB'']), size' = 20, type = Rust\<rparr>]
   \<and> fst (findBuildDirectories nice root
      (Dir [(''projA'', Dir [(''node_modules'', Dir [(''pkg'', Dir [(''index.js'', File 10)])])]),
            (''projB'', Dir [(''target'', Dir [(f, File 20)]), (''Cargo.toml'', File n)])]) [])
   = [\<lparr>path = root @ [''projA''], nice_path = nice (root @ [''projA'']), size' = 10, type = Node\<rparr>,
      \<lparr>path = root @ [''projB''], nice_path = nice (root @ [''projB'']), size' = 20, type = Rust\<rparr>]
   \<and> fst (findBuildDirectories nice root
      (Dir [(''projB'', Dir [(''Cargo.toml'', File n), (''target'', Dir [(f, File 20)])]),
            (''projA'', Dir [(''node_modules'', Dir [(''pkg'', Dir [(''index.js'', File 10)])])])]) [])
   = [\<lparr>path = root @ [''projB''], nice_path = nice (root @ [''projB'']), size' = 20, type = Rust\<rparr>,
      \<lparr>path = root @ [''projA''], nice_path = nice (root @ [''projA'']), size' = 10, type = Node\<rparr>]"
  by (simp add: run_defs)

text \<open>
  C8. On a tree with no directory named \<^verbatim>\<open>node_modules\<close> and no directory named
  \<^verbatim>\<open>target\<close> whose parent has a \<^verbatim>\<open>Cargo.toml\<close>, \<open>findBuildDirectories\<close>
  returns the empty list.
\<close>

theorem C8_no_artifact_empty:
  "no_artifact t \<Longrightarrow> fst (findBuildDirectories nice startPath t []) = []"
  using no_artifact_found [of t nice startPath] by (simp add: found_def)

theorem C8_no_artifact_empty_witness:
  "no_artifact (Dir [(''src'', Dir [(''main.rs'', File 3), (''target'', Dir [(''x'', File 9)])]),
                     (''.git'', Dir [(''node_modules'', File 4)]),
                     (''node_modules'', File 2)])
   \<and> fst (findBuildDirectories show_path [''root'']
        (Dir [(''src'', Dir [(''main.rs'', File 3), (''target'', Dir [(''x'', File 9)])]),
              (''.git'', Dir [(''node_modules'', File 4)]),
              (''node_modules'', File 2)]) []) = []"
  using C8_no_artifact_empty [of "Dir [(''src'', Dir [(''main.rs'', File 3), (''target'', Dir [(''x'', File 9)])]),
                     (''.git'', Dir [(''node_modules'', File 4)]),
                     (''node_modules'', File 2)]" show_path "[''root'']"]
  by (simp add: has_cargo_toml_def)

section \<open>The effects of a scan\<close>

lemma walk_reaches_Nil [simp]: "walk_reaches []"
  by (simp add: walk_reaches_def)

lemma walk_reaches_artifact: "artifact_name a \<Longrightarrow> walk_reaches (a # q)"
  by (auto simp: walk_reaches_def artifact_name_def descends_def)

lemma walk_reaches_descends: "descends n \<Longrightarrow> walk_reaches q \<Longrightarrow> walk_reaches (n # q)"
  by (auto simp: walk_reaches_def)

lemma getDirectorySize_loop_events_aux:
  assumes "\<forall>c \<in> snd ` set files. \<forall>q e. e \<in> set (snd (getDirectorySize q c)) \<longrightarrow>
      prefix q (event_path e)"
    and "e \<in> set (snd (getDirectorySize_loop p files acc))"
  shows "prefix p (event_path e)"
  using assms
proof (induction files arbitrary: acc)
  case Nil
  then show ?case by simp
next
  case (Cons x files)
  obtain name c where x: "x = (name, c)" by (cases x)
  have C: "e \<in> set (snd (getDirectorySize (path_join p name) c)) \<Longrightarrow> prefix p (event_path e)"
  proof -
    assume "e \<in> set (snd (getDirectorySize (path_join p name) c))"
    with Cons.prems(1) x have "prefix (path_join p name) (event_path e)" by simp
    then show ?thesis by (auto simp: path_join_def prefix_def)
  qed
  have IH: "\<And>acc. e \<in> set (snd (getDirectorySize_loop p files acc)) \<Longrightarrow> prefix p (event_path e)"
    using Cons by simp
  from Cons.prems(2) show ?case
    using C IH
    by (auto simp: x split_def Let_def path_join_def split: if_splits option.splits)
qed

lemma getDirectorySize_events:
  "e \<in> set (snd (getDirectorySize p t)) \<Longrightarrow> prefix p (event_path e)"
proof (induction t arbitrary: p e)
  case (Dir files)
  have "prefix p (event_path e)" if "e \<in> set (snd (getDirectorySize_loop p files 0))"
    by (rule getDirectorySize_loop_events_aux [OF _ that]) (use Dir.IH in force)
  with Dir.prems show ?case
    by (auto simp: split_def Let_def)
qed auto

lemma trace_entry_pair:
  "trace_entry nice p dir (name, c) =
     (if isDirectory c then
        if name = ''node_modules'' then snd (getDirectorySize (path_join p name) c)
        else if name = ''target'' then
          Readdir p # (if has_cargo_toml dir then snd (getDirectorySize (path_join p name) c) else [])
        else if descends name then trace nice (path_join p name) c
        else []
      else [])"
  by (simp add: trace_entry_def)

lemma fbd_loop_trace_aux:
  assumes "\<forall>c \<in> snd ` set files. \<forall>q rs.
      snd (findBuildDirectories nice q c rs) = trace nice q c"
  shows "snd (findBuildDirectories_loop nice p dir files rs) =
      concat (map (trace_entry nice p dir) files)"
  using assms
proof (induction files arbitrary: rs)
  case Nil
  show ?case by simp
next
  case (Cons e files)
  obtain name c where e: "e = (name, c)" by (cases e)
  have IH: "\<And>rs. snd (findBuildDirectories_loop nice p dir files rs) =
      concat (map (trace_entry nice p dir) files)"
    using Cons by simp
  have C: "\<And>q rs. snd (findBuildDirectories nice q c rs) = trace nice q c"
    using Cons.prems e by simp
  show ?case
    by (simp add: e split_def Let_def C IH trace_entry_pair descends_def
        isRustProject_fst isRustProject_snd)
qed

lemma fbd_trace: "snd (findBuildDirectories nice p t rs) = trace nice p t"
proof (induction t arbitrary: p rs)
  case (Dir files)
  have "snd (findBuildDirectories_loop nice p (Dir files) files rs) =
      concat (map (trace_entry nice p (Dir files)) files)" for rs
    by (rule fbd_loop_trace_aux) (use Dir in force)
  then show ?case by (simp add: trace_def split_def Let_def)
qed (simp_all add: trace_def)

lemma fbd_loop_trace:
  "snd (findBuildDirectories_loop nice p dir files rs) = trace_loop nice p dir files"
proof -
  have "snd (findBuildDirectories_loop nice p dir files rs) =
      concat (map (trace_entry nice p dir) files)" for rs
    by (rule fbd_loop_trace_aux) (simp add: fbd_trace)
  then show ?thesis by (simp add: trace_loop_def)
qed

lemma trace_loop_concat:
  "trace_loop nice p dir files = concat (map (trace_entry nice p dir) files)"
  unfolding trace_loop_def by (rule fbd_loop_trace_aux) (simp add: fbd_trace)

lemma trace_Dir: "trace nice p (Dir files) = Readdir p # trace_loop nice p (Dir files) files"
  by (simp add: trace_def trace_loop_def split_def Let_def)

lemma trace_not_Dir [simp]:
  "trace nice p DirErr = [Readdir p, ErrorSearching p]"
  "trace nice p (File n) = [Readdir p, ErrorSearching p]"
  "trace nice p FileErr = [Readdir p, ErrorSearching p]"
  by (simp_all add: trace_def)

lemma fbd_pair:
  "findBuildDirectories nice p t rs = (rs @ found nice p t, trace nice p t)"
  by (simp add: prod_eq_iff fbd_results fbd_trace)

lemma fbd_loop_pair:
  "findBuildDirectories_loop nice p dir files rs =
     (rs @ found_loop nice p dir files, trace_loop nice p dir files)"
  by (simp add: prod_eq_iff fbd_loop_results fbd_loop_trace)

text \<open>The listing matters to the loop through \<open>has_cargo_toml\<close> only.\<close>

lemma found_entry_dir_cong:
  "has_cargo_toml dir = has_cargo_toml dir' \<Longrightarrow>
     found_entry nice p dir = found_entry nice p dir'"
  by (rule ext) (simp add: found_entry_def isRustProject_fst)

lemma trace_entry_dir_cong:
  "has_cargo_toml dir = has_cargo_toml dir' \<Longrightarrow>
     trace_entry nice p dir = trace_entry nice p dir'"
  by (rule ext) (simp add: trace_entry_def)

lemma has_cargo_toml_replace:
  "has_cargo_toml (Dir (xs @ (name, c) # ys)) = has_cargo_toml (Dir (xs @ (name, c') # ys))"
  by (simp add: has_cargo_toml_def)

lemma found_replace:
  assumes "found_entry nice p (Dir (xs @ (name, c) # ys)) (name, c) =
           found_entry nice p (Dir (xs @ (name, c) # ys)) (name, c')"
  shows "found nice p (Dir (xs @ (name, c) # ys)) = found nice p (Dir (xs @ (name, c') # ys))"
  using assms found_entry_dir_cong [OF has_cargo_toml_replace [of xs name c ys c'], of nice p]
  by (simp add: found_Dir found_loop_concat)

lemma trace_replace:
  assumes "trace_entry nice p (Dir (xs @ (name, c) # ys)) (name, c) =
           trace_entry nice p (Dir (xs @ (name, c) # ys)) (name, c')"
  shows "trace nice p (Dir (xs @ (name, c) # ys)) = trace nice p (Dir (xs @ (name, c') # ys))"
  using assms trace_entry_dir_cong [OF has_cargo_toml_replace [of xs name c ys c'], of nice p]
  by (simp add: trace_Dir trace_loop_concat)

lemma found_entry_pair:
  "found_entry nice p dir (name, c) =
     (if isDirectory c then
        if name = ''node_modules'' then
          [match nice p (fst (getDirectorySize (path_join p name) c)) Node]
        else if name = ''target'' \<and> has_cargo_toml dir then
          [match nice p (fst (getDirectorySize (path_join p name) c)) Rust]
        else if descends name then found nice (path_join p name) c
        else []
      else [])"
  by (simp add: found_entry_def isRustProject_fst)

lemma prefix_join: "prefix (path_join p name) xs \<Longrightarrow> \<exists>q. xs = p @ name # q"
  by (auto simp: prefix_def path_join_def)

lemma trace_walk:
  "e \<in> set (trace nice p t) \<Longrightarrow> \<exists>q. event_path e = p @ q \<and> walk_reaches q"
proof (induction t arbitrary: p e)
  case (Dir files)
  show ?case
  proof (cases "e = Readdir p")
    case True
    then show ?thesis by (intro exI [of _ "[]"]) simp
  next
    case False
    with Dir.prems obtain x where x: "x \<in> set files"
      and e: "e \<in> set (trace_entry nice p (Dir files) x)"
      by (auto simp: trace_Dir trace_loop_concat)
    obtain name c where nc: "x = (name, c)" by (cases x)
    from e nc False consider
        (size) "artifact_name name" "e \<in> set (snd (getDirectorySize (path_join p name) c))"
      | (walk) "descends name" "e \<in> set (trace nice (path_join p name) c)"
      by (auto simp: trace_entry_pair artifact_name_def split: if_splits)
    then show ?thesis
    proof cases
      case size
      from getDirectorySize_events [OF size(2)] obtain q where "event_path e = p @ name # q"
        using prefix_join by blast
      with size(1) show ?thesis
        using walk_reaches_artifact by blast
    next
      case walk
      from Dir.IH [of x c, OF _ _ walk(2)] x nc
      obtain q where "event_path e = path_join p name @ q" "walk_reaches q"
        by auto
      with walk(1) have "event_path e = p @ name # q \<and> walk_reaches (name # q)"
        by (simp add: path_join_def walk_reaches_descends)
      then show ?thesis by blast
    qed
  qed
qed auto

lemma trace_prefix: "e \<in> set (trace nice p t) \<Longrightarrow> prefix p (event_path e)"
  using trace_walk by fastforce

lemma trace_entry_events:
  assumes "e \<in> set (trace_entry nice p dir (name, c))"
  shows "(e = Readdir p \<and> name = ''target'')
       \<or> (prefix (path_join p name) (event_path e) \<and> isDirectory c
           \<and> (name = ''node_modules'' \<or> (name = ''target'' \<and> has_cargo_toml dir)
               \<or> descends name))"
  using assms getDirectorySize_events [of e "path_join p name" c]
    trace_prefix [of e nice "path_join p name" c]
  by (auto simp: trace_entry_pair split: if_splits)

lemma prefix_join_same:
  "prefix (path_join p a) xs \<Longrightarrow> prefix (path_join p b) xs \<Longrightarrow> a = b"
  by (auto simp: prefix_def path_join_def)

lemma prefix_join_self: "\<not> prefix (path_join p a) p"
  by (auto simp: prefix_def path_join_def)

lemma found_prefix: "r \<in> set (found nice p t) \<Longrightarrow> prefix p (path r)"
  using found_paths by fastforce

lemma found_relative:
  "r \<in> set (found nice p t) \<Longrightarrow> list_all descends (drop (length p) (path r))"
  using found_paths by fastforce

lemma dir_trace_events:
  assumes "e \<in> set (trace nice p (Dir files))"
  shows "e = Readdir p
       \<or> (\<exists>name. prefix (path_join p name) (event_path e)
             \<and> (name = ''node_modules'' \<or> (name = ''target'' \<and> has_cargo_toml (Dir files))
                 \<or> descends name))"
proof (cases "e = Readdir p")
  case False
  with assms obtain x where "x \<in> set files" "e \<in> set (trace_entry nice p (Dir files) x)"
    by (auto simp: trace_Dir trace_loop_concat)
  then show ?thesis
    using trace_entry_events [of e nice p "Dir files" "fst x" "snd x"] by auto
qed simp

lemma dir_found_keys:
  assumes "r \<in> set (found nice p (Dir files))"
  shows "key r = (p, Node) \<or> (key r = (p, Rust) \<and> has_cargo_toml (Dir files))
       \<or> path r \<noteq> p"
proof -
  from assms obtain x where "x \<in> set files" "r \<in> set (found_entry nice p (Dir files) x)"
    by (auto simp: found_Dir found_loop_concat)
  then have r: "r \<in> set (found_entry nice p (Dir files) x)" by simp
  show ?thesis
  proof (cases "isDirectory (snd x) \<and> fst x \<noteq> ''node_modules''
      \<and> \<not> (fst x = ''target'' \<and> has_cargo_toml (Dir files)) \<and> descends (fst x)")
    case True
    with r have "r \<in> set (found nice (path_join p (fst x)) (snd x))"
      by (simp add: found_entry_def isRustProject_fst)
    then have "prefix (path_join p (fst x)) (path r)" by (rule found_prefix)
    then show ?thesis using prefix_join_self by auto
  next
    case False
    with r show ?thesis
      by (auto simp: found_entry_def isRustProject_fst match_def key_def split: if_splits)
  qed
qed

section \<open>What the scan leaves alone\<close>

lemma nodes_at_list_member:
  "(name, c) \<in> set files \<Longrightarrow> set (nodes_at c q) \<subseteq> set (nodes_at_list files name q)"
  by (induction files) auto

lemma nodes_at_child:
  assumes "(name, c) \<in> set files" and "list_ex P (nodes_at c q)"
  shows "list_ex P (nodes_at (Dir files) (name # q))"
  using nodes_at_list_member [OF assms(1), of q] assms(2)
  by (auto simp: list_ex_iff)

lemma found_rust_confirmed:
  "r \<in> set (found nice p t) \<Longrightarrow> type r = Rust \<Longrightarrow>
     \<exists>q. path r = p @ q \<and> list_ex has_cargo_toml (nodes_at t q)"
proof (induction t arbitrary: p r)
  case (Dir files)
  from Dir.prems(1) obtain x where x: "x \<in> set files"
    and r: "r \<in> set (found_entry nice p (Dir files) x)"
    by (auto simp: found_Dir found_loop_concat)
  obtain name c where nc: "x = (name, c)" by (cases x)
  from r nc Dir.prems(2) consider
      (here) "path r = p" "has_cargo_toml (Dir files)"
    | (below) "descends name" "r \<in> set (found nice (path_join p name) c)"
    by (auto simp: found_entry_pair match_def split: if_splits)
  then show ?case
  proof cases
    case here
    then have "path r = p @ [] \<and> list_ex has_cargo_toml (nodes_at (Dir files) [])" by simp
    then show ?thesis by blast
  next
    case below
    from Dir.IH [of x c, OF _ _ below(2) Dir.prems(2)] x nc
    obtain q where q: "path r = path_join p name @ q" "list_ex has_cargo_toml (nodes_at c q)"
      by auto
    from x nc q(2) have "list_ex has_cargo_toml (nodes_at (Dir files) (name # q))"
      using nodes_at_child by blast
    with q(1) have "path r = p @ name # q \<and> list_ex has_cargo_toml (nodes_at (Dir files) (name # q))"
      by (simp add: path_join_def)
    then show ?thesis by blast
  qed
qed simp_all

lemma prefix_longer: "\<not> prefix (p @ q @ [a]) p"
  by (auto simp: prefix_def)

lemma trace_target_confirmed:
  "e \<in> set (trace nice p t) \<Longrightarrow> list_all descends q \<Longrightarrow>
     prefix (p @ q @ [''target'']) (event_path e) \<Longrightarrow>
     list_ex has_cargo_toml (nodes_at t q)"
proof (induction t arbitrary: p q e)
  case (Dir files)
  from Dir.prems(3) have ne: "e \<noteq> Readdir p"
    using prefix_longer [of p q "''target''"] by auto
  with Dir.prems(1) obtain x where x: "x \<in> set files"
    and e: "e \<in> set (trace_entry nice p (Dir files) x)"
    by (auto simp: trace_Dir trace_loop_concat)
  obtain name c where nc: "x = (name, c)" by (cases x)
  from trace_entry_events [of e nice p "Dir files" name c] e nc ne
  have pre: "prefix (path_join p name) (event_path e)" and dir: "isDirectory c"
    and kind: "name = ''node_modules'' \<or> (name = ''target'' \<and> has_cargo_toml (Dir files))
        \<or> descends name"
    by auto
  show ?case
  proof (cases q)
    case Nil
    with Dir.prems(3) pre have "name = ''target''"
      by (auto simp: prefix_def path_join_def)
    with kind have "has_cargo_toml (Dir files)" by (auto simp: descends_def)
    with Nil show ?thesis by simp
  next
    case (Cons n q')
    with Dir.prems(3) pre have n: "name = n"
      by (auto simp: prefix_def path_join_def)
    from Cons Dir.prems(2) n have d: "descends name" "list_all descends q'" by simp_all
    with e nc dir have "e \<in> set (trace nice (path_join p name) c)"
      by (simp add: trace_entry_pair descends_def)
    moreover from Dir.prems(3) Cons n
    have "prefix (path_join p name @ q' @ [''target'']) (event_path e)"
      by (simp add: path_join_def)
    ultimately have "list_ex has_cargo_toml (nodes_at c q')"
      using Dir.IH [of x c e "path_join p name" q'] x nc d(2) by simp
    with x nc have "list_ex has_cargo_toml (nodes_at (Dir files) (name # q'))"
      using nodes_at_child by blast
    with Cons n show ?thesis by simp
  qed
qed (auto simp: prefix_def)

text \<open>
  C2. Take any directory of the scanned tree, at the path \<open>q\<close> below the start path
  \<open>p\<close>, that has no entry named \<^verbatim>\<open>Cargo.toml\<close>. The scan emits no \<open>Rust\<close>
  match for it, whatever its depth; when the walk comes to it (through names it walks
  into), none of the scan's file-system calls and messages is about its
  \<^verbatim>\<open>target\<close> or a path below that. No match of any scan has a project path at or
  below a \<^verbatim>\<open>target\<close>, so nothing nested below one is reported. And the whole
  outcome of scanning such a directory, matches and effects, is the same whatever its
  directory \<^verbatim>\<open>target\<close> holds.
\<close>

theorem C2_unconfirmed_target_skipped:
  "(\<not> list_ex has_cargo_toml (nodes_at t q) \<longrightarrow>
      (\<forall>r \<in> set (fst (findBuildDirectories nice p t [])). key r \<noteq> (p @ q, Rust))
      \<and> (list_all descends q \<longrightarrow>
           (\<forall>e \<in> set (snd (findBuildDirectories nice p t rs)).
              \<not> prefix (p @ q @ [''target'']) (event_path e))))
   \<and> (\<forall>r \<in> set (fst (findBuildDirectories nice p t [])).
        \<not> prefix (p @ q @ [''target'']) (path r))
   \<and> (\<not> has_cargo_toml (Dir (xs @ (''target'', c) # ys)) \<and> isDirectory c \<and> isDirectory c' \<longrightarrow>
        findBuildDirectories nice p (Dir (xs @ (''target'', c') # ys)) rs =
        findBuildDirectories nice p (Dir (xs @ (''target'', c) # ys)) rs)"
proof (intro conjI ballI impI)
  fix r assume nc: "\<not> list_ex has_cargo_toml (nodes_at t q)"
    and "r \<in> set (fst (findBuildDirectories nice p t []))"
  then have r: "r \<in> set (found nice p t)" by (simp only: found_def)
  show "key r \<noteq> (p @ q, Rust)"
  proof
    assume k: "key r = (p @ q, Rust)"
    then have "type r = Rust" "path r = p @ q" by (simp_all add: key_def)
    with found_rust_confirmed [OF r] nc show False by auto
  qed
next
  fix e assume nc: "\<not> list_ex has_cargo_toml (nodes_at t q)"
    and q: "list_all descends q"
    and "e \<in> set (snd (findBuildDirectories nice p t rs))"
  then have e: "e \<in> set (trace nice p t)" by (simp only: fbd_trace)
  show "\<not> prefix (p @ q @ [''target'']) (event_path e)"
    using trace_target_confirmed [OF e q] nc by blast
next
  fix r assume "r \<in> set (fst (findBuildDirectories nice p t []))"
  then have r: "r \<in> set (found nice p t)" by (simp only: found_def)
  from found_paths [OF r] obtain q0 where q0: "path r = p @ q0" "list_all descends q0" by blast
  show "\<not> prefix (p @ q @ [''target'']) (path r)"
  proof
    assume "prefix (p @ q @ [''target'']) (path r)"
    with q0(1) have "''target'' \<in> set q0" by (auto simp: prefix_def)
    with q0(2) show False by (auto simp: list_all_iff descends_def)
  qed
next
  assume a: "\<not> has_cargo_toml (Dir (xs @ (''target'', c) # ys)) \<and> isDirectory c \<and> isDirectory c'"
  then have nc: "\<not> has_cargo_toml (Dir (xs @ (''target'', c') # ys))"
    by (simp add: has_cargo_toml_def)
  have "found nice p (Dir (xs @ (''target'', c') # ys)) = found nice p (Dir (xs @ (''target'', c) # ys))"
    by (rule found_replace) (use a nc in \<open>simp add: found_entry_pair descends_def\<close>)
  moreover have "trace nice p (Dir (xs @ (''target'', c') # ys)) = trace nice p (Dir (xs @ (''target'', c) # ys))"
    by (rule trace_replace) (use a nc in \<open>simp add: trace_entry_pair descends_def\<close>)
  ultimately show "findBuildDirectories nice p (Dir (xs @ (''target'', c') # ys)) rs =
        findBuildDirectories nice p (Dir (xs @ (''target'', c) # ys)) rs"
    unfolding fbd_pair by simp
qed

theorem C2_unconfirmed_target_skipped_witness:
  "\<not> list_ex has_cargo_toml (nodes_at
        (Dir [(''projC'', Dir [(''node_modules'', Dir [(''a.js'', File 1)]),
                               (''target'', Dir [(''node_modules'', Dir [(''x.js'', File 3)])])])])
        [''projC''])
   \<and> list_all descends [''projC'']
   \<and> findBuildDirectories show_path [''root'']
        (Dir [(''projC'', Dir [(''node_modules'', Dir [(''a.js'', File 1)]),
                               (''target'', Dir [(''node_modules'', Dir [(''x.js'', File 3)])])])]) []
     = ([\<lparr>path = [''root'', ''projC''], nice_path = ''/root/projC'', size' = 1, type = Node\<rparr>],
        [Readdir [''root''],
         Readdir [''root'', ''projC''],
         Readdir [''root'', ''projC'', ''node_modules''],
         Stat [''root'', ''projC'', ''node_modules'', ''a.js''],
         Readdir [''root'', ''projC'']])
   \<and> \<not> has_cargo_toml (Dir [(''node_modules'', Dir [(''a.js'', File 1)]),
                               (''target'', Dir [(''node_modules'', Dir [(''x.js'', File 3)])])])
   \<and> findBuildDirectories show_path [''root'']
        (Dir [(''node_modules'', Dir [(''a.js'', File 1)]), (''target'', Dir [])]) []
     = findBuildDirectories show_path [''root'']
        (Dir [(''node_modules'', Dir [(''a.js'', File 1)]),
              (''target'', Dir [(''node_modules'', Dir [(''x.js'', File 3)])])]) []"
  using C2_unconfirmed_target_skipped [of
      "Dir [(''projC'', Dir [(''node_modules'', Dir [(''a.js'', File 1)]),
                               (''target'', Dir [(''node_modules'', Dir [(''x.js'', File 3)])])])]"
      "[''projC'']" show_path "[''root'']" "[]"
      "[(''node_modules'', Dir [(''a.js'', File 1)])]"
      "Dir [(''node_modules'', Dir [(''x.js'', File 3)])]" "[]" "Dir []"]
  by (simp add: has_cargo_toml_def descends_def run_defs show_path_def)

lemma descends_not_hidden: "descends name \<Longrightarrow> \<not> startsWith name ''.''"
  by (simp add: descends_def)


lemma hidden_not_artifact: "startsWith name ''.'' \<Longrightarrow> \<not> artifact_name name"
  by (auto simp: artifact_name_def startsWith_def)

lemma list_all_weaken: "list_all P xs \<Longrightarrow> (\<And>x. P x \<Longrightarrow> Q x) \<Longrightarrow> list_all Q xs"
  by (induction xs) auto

lemma walk_reaches_hidden:
  assumes "list_all descends q" and "startsWith h ''.''"
  shows "\<not> walk_reaches (q @ h # q')"
proof -
  from assms(2) have h: "\<not> descends h" "\<not> artifact_name h"
    by (auto simp: descends_def hidden_not_artifact)
  from assms(1) have "dropWhile descends q = []"
    by (simp add: list_all_iff)
  with h(1) have "dropWhile descends (q @ h # q') = h # q'"
    by (simp add: dropWhile_append3)
  with h show ?thesis by (simp add: walk_reaches_def)
qed


text \<open>
  C7. The scan never goes into a directory whose name begins with \<^verbatim>\<open>.\<close>: no
  component of a match's project path below the start path begins with \<^verbatim>\<open>.\<close>, so no
  match is produced for an artifact directory lying below a hidden directory; no
  file-system call or message of the scan is about a hidden directory that the walk
  comes to (one reached through names it walks into), or about a path below it; and the
  whole outcome is the same whatever a hidden entry of the scanned directory holds.
\<close>

theorem C7_hidden_directories_skipped:
  "(\<forall>r \<in> set (fst (findBuildDirectories nice p t [])).
      prefix p (path r)
      \<and> list_all (\<lambda>name. \<not> startsWith name ''.'') (drop (length p) (path r)))
   \<and> (\<forall>e \<in> set (snd (findBuildDirectories nice p t rs)).
        startsWith h ''.'' \<and> list_all descends q \<longrightarrow> \<not> prefix (p @ q @ [h]) (event_path e))
   \<and> (startsWith h ''.'' \<longrightarrow>
        findBuildDirectories nice p (Dir (xs @ (h, c') # ys)) rs =
        findBuildDirectories nice p (Dir (xs @ (h, c) # ys)) rs)"
proof (intro conjI ballI impI)
  fix r assume "r \<in> set (fst (findBuildDirectories nice p t []))"
  then have r: "r \<in> set (found nice p t)" by (simp only: found_def)
  from found_prefix [OF r] show "prefix p (path r)" .
  from found_relative [OF r]
  show "list_all (\<lambda>name. \<not> startsWith name ''.'') (drop (length p) (path r))"
    by (rule list_all_weaken) (rule descends_not_hidden)
next
  fix e assume "e \<in> set (snd (findBuildDirectories nice p t rs))"
    and hq: "startsWith h ''.'' \<and> list_all descends q"
  then have "e \<in> set (trace nice p t)" by (simp only: fbd_trace)
  then obtain q0 where q0: "event_path e = p @ q0" "walk_reaches q0"
    using trace_walk by blast
  show "\<not> prefix (p @ q @ [h]) (event_path e)"
  proof
    assume "prefix (p @ q @ [h]) (event_path e)"
    with q0(1) obtain q' where "q0 = q @ h # q'"
      by (auto simp: prefix_def)
    with q0(2) hq show False
      using walk_reaches_hidden by blast
  qed
next
  assume h: "startsWith h ''.''"
  then have nd: "\<not> descends h" "h \<noteq> ''node_modules''" "h \<noteq> ''target''"
    using hidden_not_artifact [OF h] by (auto simp: descends_def artifact_name_def)
  have "found nice p (Dir (xs @ (h, c') # ys)) = found nice p (Dir (xs @ (h, c) # ys))"
    by (rule found_replace) (use nd in \<open>simp add: found_entry_pair\<close>)
  moreover have "trace nice p (Dir (xs @ (h, c') # ys)) = trace nice p (Dir (xs @ (h, c) # ys))"
    by (rule trace_replace) (use nd in \<open>simp add: trace_entry_pair\<close>)
  ultimately show "findBuildDirectories nice p (Dir (xs @ (h, c') # ys)) rs =
        findBuildDirectories nice p (Dir (xs @ (h, c) # ys)) rs"
    unfolding fbd_pair by simp
qed

theorem C7_hidden_directories_skipped_witness:
  "startsWith ''.cache'' ''.''
   \<and> findBuildDirectories show_path [''root'']
        (Dir [(''.cache'', Dir [(''node_modules'', Dir [(''x.js'', File 3)])]),
              (''app'', Dir [(''.venv'', Dir [(''node_modules'', Dir [])]),
                             (''node_modules'', Dir [(''.bin'', Dir [(''y'', File 2)])])])]) []
     = ([\<lparr>path = [''root'', ''app''], nice_path = ''/root/app'', size' = 2, type = Node\<rparr>],
        [Readdir [''root''], Readdir [''root'', ''app''],
         Readdir [''root'', ''app'', ''node_modules''],
         Readdir [''root'', ''app'', ''node_modules'', ''.bin''],
         Stat [''root'', ''app'', ''node_modules'', ''.bin'', ''y'']])
   \<and> findBuildDirectories show_path [''root'']
        (Dir [(''.cache'', Dir []),
              (''app'', Dir [(''.venv'', Dir [(''node_modules'', Dir [])]),
                             (''node_modules'', Dir [(''.bin'', Dir [(''y'', File 2)])])])]) []
     = findBuildDirectories show_path [''root'']
        (Dir [(''.cache'', Dir [(''node_modules'', Dir [(''x.js'', File 3)])]),
              (''app'', Dir [(''.venv'', Dir [(''node_modules'', Dir [])]),
                             (''node_modules'', Dir [(''.bin'', Dir [(''y'', File 2)])])])]) []"
  using C7_hidden_directories_skipped [of show_path "[''root'']"
      "Dir [(''.cache'', Dir [(''node_modules'', Dir [(''x.js'', File 3)])]),
              (''app'', Dir [(''.venv'', Dir [(''node_modules'', Dir [])]),
                             (''node_modules'', Dir [(''.bin'', Dir [(''y'', File 2)])])])]"
      "[]" "''.cache''" "[]" "[]" "Dir []"
      "[(''app'', Dir [(''.venv'', Dir [(''node_modules'', Dir [])]),
                             (''node_modules'', Dir [(''.bin'', Dir [(''y'', File 2)])])])]"
      "Dir [(''node_modules'', Dir [(''x.js'', File 3)])]"]
  by (simp add: run_defs show_path_def)



section \<open>Errors stay where they happen\<close>

lemma as_empty_list_map: "as_empty_list files = map (\<lambda>x. (fst x, as_empty (snd x))) files"
  by (induction files) auto

lemma isDirectory_as_empty [simp]: "isDirectory (as_empty c) = isDirectory c"
  by (cases c) simp_all

lemma stat_size_as_empty [simp]: "\<not> isDirectory c \<Longrightarrow> stat_size (as_empty c) = stat_size c"
  by (cases c) simp_all

lemma has_cargo_toml_as_empty [simp]:
  "has_cargo_toml (Dir (as_empty_list files)) = has_cargo_toml (Dir files)"
  by (simp add: has_cargo_toml_def as_empty_list_map comp_def)






section \<open>The two versions\<close>

lemma findNodeModules_loop_refines_aux:
  assumes "\<forall>c \<in> snd ` set files. \<forall>q rs. no_target_dir c \<longrightarrow>
      findNodeModules q c (map path_and_size rs) =
        (map path_and_size (fst (findBuildDirectories nice q c rs)),
         snd (findBuildDirectories nice q c rs))"
    and "no_target_dir_list files"
  shows "findNodeModules_loop p files (map path_and_size rs) =
      (map path_and_size (fst (findBuildDirectories_loop nice p dir files rs)),
       snd (findBuildDirectories_loop nice p dir files rs))"
  using assms
proof (induction files arbitrary: rs)
  case Nil
  show ?case by simp
next
  case (Cons x files)
  obtain name c where x: "x = (name, c)" by (cases x)
  from Cons.prems x have nt: "\<not> (isDirectory c \<and> name = ''target'')" "no_target_dir c"
    by simp_all
  have IH: "\<And>rs. findNodeModules_loop p files (map path_and_size rs) =
      (map path_and_size (fst (findBuildDirectories_loop nice p dir files rs)),
       snd (findBuildDirectories_loop nice p dir files rs))"
    using Cons x by simp
  have C: "\<And>q rs. findNodeModules q c (map path_and_size rs) =
      (map path_and_size (fst (findBuildDirectories nice q c rs)),
       snd (findBuildDirectories nice q c rs))"
    using Cons.prems(1) x nt by simp
  show ?case
  proof (cases "isDirectory c")
    case False
    then show ?thesis by (simp add: x IH)
  next
    case dir: True
    with nt have nt': "name \<noteq> ''target''" by simp
    show ?thesis
    proof (cases "name = ''node_modules''")
      case True
      let ?m = "\<lparr>path = p, nice_path = nice p,
          size' = fst (getDirectorySize (path_join p name) c), type = Node\<rparr>"
      have "map path_and_size rs @
          [\<lparr>np_path = p, np_size = fst (getDirectorySize (path_join p name) c)\<rparr>] =
          map path_and_size (rs @ [?m])"
        by (simp add: path_and_size_def)
      then show ?thesis
        using dir True IH [of "rs @ [?m]"]
        by (simp add: x split_def Let_def)
    next
      case False
      show ?thesis
      proof (cases "startsWith name ''.''")
        case True
        with dir False nt' show ?thesis
          by (simp add: x split_def Let_def IH)
      next
        case notdot: False
        with dir False nt' show ?thesis
          by (simp add: x split_def Let_def C IH)
      qed
    qed
  qed
qed

text \<open>
  C9. On a tree with no directory named \<^verbatim>\<open>target\<close>, \<open>findNodeModules\<close> of the
  earlier version and \<open>findBuildDirectories\<close> of the later one make the same
  file-system calls and log the same messages in the same order, and return the same
  sequence of matches once those of the later version are projected to path and size.
\<close>

theorem C9_findNodeModules_refined:
  "no_target_dir t \<Longrightarrow>
     findNodeModules p t (map path_and_size rs) =
       (map path_and_size (fst (findBuildDirectories nice p t rs)),
        snd (findBuildDirectories nice p t rs))"
proof (induction t arbitrary: p rs)
  case (Dir files)
  have "findNodeModules_loop p files (map path_and_size rs) =
      (map path_and_size (fst (findBuildDirectories_loop nice p (Dir files) files rs)),
       snd (findBuildDirectories_loop nice p (Dir files) files rs))"
    by (rule findNodeModules_loop_refines_aux) (use Dir in force)+
  then show ?case by (simp add: split_def Let_def)
qed simp_all

theorem C9_findNodeModules_refined_witness:
  "no_target_dir (Dir [(''.git'', Dir [(''node_modules'', Dir [])]),
                       (''app'', Dir [(''node_modules'', Dir [(''a.js'', File 3)]),
                                      (''src'', Dir [(''target'', File 1)])])])
   \<and> findNodeModules [''root'']
        (Dir [(''.git'', Dir [(''node_modules'', Dir [])]),
              (''app'', Dir [(''node_modules'', Dir [(''a.js'', File 3)]),
                             (''src'', Dir [(''target'', File 1)])])]) []
     = (map path_and_size (fst (findBuildDirectories show_path [''root'']
          (Dir [(''.git'', Dir [(''node_modules'', Dir [])]),
                (''app'', Dir [(''node_modules'', Dir [(''a.js'', File 3)]),
                               (''src'', Dir [(''target'', File 1)])])]) [])),
        snd (findBuildDirectories show_path [''root'']
          (Dir [(''.git'', Dir [(''node_modules'', Dir [])]),
                (''app'', Dir [(''node_modules'', Dir [(''a.js'', File 3)]),
                               (''src'', Dir [(''target'', File 1)])])]) []))
   \<and> findNodeModules [''root'']
        (Dir [(''.git'', Dir [(''node_modules'', Dir [])]),
              (''app'', Dir [(''node_modules'', Dir [(''a.js'', File 3)]),
                             (''src'', Dir [(''target'', File 1)])])]) []
     = ([\<lparr>np_path = [''root'', ''app''], np_size = 3\<rparr>],
        [Readdir [''root''], Readdir [''root'', ''app''],
         Readdir [''root'', ''app'', ''node_modules''],
         Stat [''root'', ''app'', ''node_modules'', ''a.js''],
         Readdir [''root'', ''app'', ''src'']])"
  using C9_findNodeModules_refined [of
      "Dir [(''.git'', Dir [(''node_modules'', Dir [])]),
              (''app'', Dir [(''node_modules'', Dir [(''a.js'', File 3)]),
                             (''src'', Dir [(''target'', File 1)])])]"
      "[''root'']" "[]" show_path]
  by (simp add: run_defs)

section \<open>The start path\<close>

lemma getDirectorySize_path_free:
  "fst (getDirectorySize p t) = fst (getDirectorySize q t)"
proof (induction t arbitrary: p q)
  case (Dir files)
  have "set fs \<subseteq> set files \<Longrightarrow>
      fst (getDirectorySize_loop p fs acc) = fst (getDirectorySize_loop q fs acc)" for fs acc
  proof (induction fs arbitrary: acc)
    case Nil
    show ?case by simp
  next
    case (Cons x fs)
    obtain name c where x: "x = (name, c)" by (cases x)
    have C: "fst (getDirectorySize (path_join p name) c) =
        fst (getDirectorySize (path_join q name) c)"
      using Dir.IH [of x c] Cons.prems x by simp
    have IH: "\<And>acc. fst (getDirectorySize_loop p fs acc) = fst (getDirectorySize_loop q fs acc)"
      using Cons by simp
    show ?case
      by (cases "stat_size c") (simp_all add: x C IH split_def Let_def)
  qed
  then show ?case by (simp add: split_def Let_def)
qed simp_all

lemma relative_match [simp]: "relative p (match nice p s ty) = ([], s, ty)"
  by (simp add: relative_def match_def)

lemma relative_below:
  assumes "prefix (path_join p name) (path r)"
  shows "relative p r =
    (name # fst (relative (path_join p name) r), snd (relative (path_join p name) r))"
proof -
  from assms obtain q where "path r = p @ name # q"
    by (auto simp: prefix_def path_join_def)
  then show ?thesis by (simp add: relative_def path_join_def)
qed

lemma found_relative_free:
  "map (relative p) (found nice p t) = map (relative q) (found nice' q t)"
proof (induction t arbitrary: p q)
  case (Dir files)
  have "map (relative p) (found_entry nice p (Dir files) x) =
      map (relative q) (found_entry nice' q (Dir files) x)" if x: "x \<in> set files" for x
  proof -
    obtain name c where nc: "x = (name, c)" by (cases x)
    let ?push = "\<lambda>k. (name # fst k, snd k)"
    have push: "map (relative p') (found nice'' (path_join p' name) c) =
        map ?push (map (relative (path_join p' name)) (found nice'' (path_join p' name) c))"
      for p' nice''
      using relative_below [of p' name] found_prefix [of _ nice'' "path_join p' name" c]
      by simp
    have IH: "map (relative (path_join p name)) (found nice (path_join p name) c) =
        map (relative (path_join q name)) (found nice' (path_join q name) c)"
      using Dir.IH [of x c "path_join p name" "path_join q name"] x nc by simp
    have "map (relative p) (found nice (path_join p name) c) =
        map ?push (map (relative (path_join p name)) (found nice (path_join p name) c))"
      by (rule push)
    also have "\<dots> =
        map ?push (map (relative (path_join q name)) (found nice' (path_join q name) c))"
      by (simp only: IH)
    also have "\<dots> = map (relative q) (found nice' (path_join q name) c)"
      by (rule push [symmetric])
    finally have "map (relative p) (found nice (path_join p name) c) =
        map (relative q) (found nice' (path_join q name) c)" .
    then show ?thesis
      using getDirectorySize_path_free [of "path_join p name" c "path_join q name"]
      by (auto simp: nc found_entry_pair)
  qed
  then show ?case
    by (simp add: found_Dir found_loop_concat map_concat cong: map_cong)
qed simp_all

text \<open>
  C10. The name of the start directory is never tested: every match of a scan started at
  \<open>parent/base\<close> has a project path at or below \<open>parent/base\<close>, so none is a match
  for the start directory itself (its project path would be \<open>parent\<close>), whatever
  \<open>base\<close> is; and seen from the start path the matches are the same for every
  \<open>base\<close>, \<^verbatim>\<open>node_modules\<close> and \<^verbatim>\<open>target\<close> included.
\<close>

theorem C10_start_path_not_tested:
  "(\<forall>r \<in> set (fst (findBuildDirectories nice (path_join parent base) t [])).
      prefix (path_join parent base) (path r) \<and> path r \<noteq> parent)
   \<and> map (relative (path_join parent base))
        (fst (findBuildDirectories nice (path_join parent base) t [])) =
      map (relative (path_join parent base'))
        (fst (findBuildDirectories nice' (path_join parent base') t []))"
proof (intro conjI ballI)
  fix r assume "r \<in> set (fst (findBuildDirectories nice (path_join parent base) t []))"
  then have "r \<in> set (found nice (path_join parent base) t)" by (simp only: found_def)
  then show p: "prefix (path_join parent base) (path r)" by (rule found_prefix)
  then show "path r \<noteq> parent" using prefix_join_self by auto
next
  show "map (relative (path_join parent base))
        (fst (findBuildDirectories nice (path_join parent base) t [])) =
      map (relative (path_join parent base'))
        (fst (findBuildDirectories nice' (path_join parent base') t []))"
    using found_relative_free [of "path_join parent base" nice t "path_join parent base'" nice']
    by (simp only: found_def)
qed

theorem C10_start_path_not_tested_witness:
  "\<lparr>path = [''work'', ''node_modules'', ''pkg''], nice_path = ''/work/node_modules/pkg'',
     size' = 2, type = Node\<rparr>
     \<in> set (fst (findBuildDirectories show_path (path_join [''work''] ''node_modules'')
          (Dir [(''pkg'', Dir [(''node_modules'', Dir [(''i.js'', File 2)])])]) []))
   \<and> fst (findBuildDirectories show_path (path_join [''work''] ''node_modules'')
          (Dir [(''pkg'', Dir [(''node_modules'', Dir [(''i.js'', File 2)])])]) [])
     = [\<lparr>path = [''work'', ''node_modules'', ''pkg''], nice_path = ''/work/node_modules/pkg'',
         size' = 2, type = Node\<rparr>]
   \<and> map (relative (path_join [''work''] ''node_modules''))
        (fst (findBuildDirectories show_path (path_join [''work''] ''node_modules'')
          (Dir [(''pkg'', Dir [(''node_modules'', Dir [(''i.js'', File 2)])])]) []))
     = map (relative (path_join [''work''] ''src''))
        (fst (findBuildDirectories show_path (path_join [''work''] ''src'')
          (Dir [(''pkg'', Dir [(''node_modules'', Dir [(''i.js'', File 2)])])]) []))"
  using C10_start_path_not_tested [of show_path "[''work'']" "''node_modules''"
      "Dir [(''pkg'', Dir [(''node_modules'', Dir [(''i.js'', File 2)])])]" "''src''" show_path]
  by (simp add: run_defs show_path_def)

end
